theory Spec2Isabelle
  imports
    Complex_Main
    "HOL-Library.Sublist"
    "HOL-Library.Multiset"
    "HOL-Library.Char_ord"
    "HOL-Library.List_Lexorder"
begin

section \<open>The badge updater \<^verbatim>\<open>scripts/update_badges.py\<close>\<close>

text \<open>
  The script fetches a JSON document, groups the badge records in it by issuer, renders
  the groups as markup and splices the markup between two marker comments of a README.
  Its functions are embedded one by one, under their own names. Every exception the code
  can raise is a value of \<open>error\<close>, and a function that may raise returns
  \<open>error + 'a\<close> with \<open>Inl\<close> for the exception.
\<close>

subsection \<open>Values and exceptions\<close>

text \<open>
  What \<^verbatim>\<open>json.loads\<close> returns: \<^verbatim>\<open>None\<close>, a bool, an int, a float, a str, a list or
  a dict with str keys. A dict is the list of its items in insertion order; a lookup
  takes the first item with the key. A finite float is held as the rational number it
  denotes (the non-standard tokens NaN and Infinity are not represented). A character of
  a str is a \<open>char\<close>, and strings are ordered as Python orders them, character by
  character.
\<close>

datatype json =
    JNull
  | JBool bool
  | JInt int
  | JFloat rat
  | JStr string
  | JArr "json list"
  | JObj "(string \<times> json) list"

datatype error =
    KeyError
  | IndexError
  | TypeError
  | AttributeError
  | URLError
  | JSONDecodeError
  | SystemExit nat

text \<open>\<^verbatim>\<open>except Exception\<close> catches every exception but \<^verbatim>\<open>SystemExit\<close>.\<close>

fun is_Exception :: "error \<Rightarrow> bool" where
  "is_Exception (SystemExit n) = False"
| "is_Exception e = True"

text \<open>Sequencing: the second computation runs only if the first did not raise.\<close>

fun andthen :: "error + 'a \<Rightarrow> ('a \<Rightarrow> error + 'b) \<Rightarrow> error + 'b" where
  "andthen (Inl e) f = Inl e"
| "andthen (Inr x) f = f x"

fun map_result :: "('a \<Rightarrow> error + 'b) \<Rightarrow> 'a list \<Rightarrow> error + 'b list" where
  "map_result f [] = Inr []"
| "map_result f (x # xs) =
     andthen (f x) (\<lambda>y. andthen (map_result f xs) (\<lambda>ys. Inr (y # ys)))"

subsection \<open>Python's built-in operations on these values\<close>

text \<open>\<^verbatim>\<open>x["key"]\<close>: only a dict can be subscripted with a str.\<close>

fun subscript_str :: "json \<Rightarrow> string \<Rightarrow> error + json" where
  "subscript_str (JObj kvs) k =
     (case map_of kvs k of None \<Rightarrow> Inl KeyError | Some v \<Rightarrow> Inr v)"
| "subscript_str x k = Inl TypeError"

text \<open>
  \<^verbatim>\<open>x[i]\<close> for an int \<open>i\<close>: a list and a str are indexed (a negative index counts
  from the end), a dict with str keys has no such key, and nothing else is subscriptable.
\<close>

definition py_index :: "'a list \<Rightarrow> int \<Rightarrow> error + 'a" where
  "py_index xs i =
     (if 0 \<le> i \<and> i < int (length xs) then Inr (xs ! nat i)
      else if i < 0 \<and> - int (length xs) \<le> i then Inr (xs ! nat (int (length xs) + i))
      else Inl IndexError)"

fun subscript_int :: "json \<Rightarrow> int \<Rightarrow> error + json" where
  "subscript_int (JArr xs) i = py_index xs i"
| "subscript_int (JStr s) i = andthen (py_index s i) (\<lambda>c. Inr (JStr [c]))"
| "subscript_int (JObj kvs) i = Inl KeyError"
| "subscript_int x i = Inl TypeError"

text \<open>\<^verbatim>\<open>for badge in badges\<close>: a list yields its elements, a str its characters, a dict its keys.\<close>

fun py_iter :: "json \<Rightarrow> error + json list" where
  "py_iter (JArr xs) = Inr xs"
| "py_iter (JStr s) = Inr (map (\<lambda>c. JStr [c]) s)"
| "py_iter (JObj kvs) = Inr (map (\<lambda>kv. JStr (fst kv)) kvs)"
| "py_iter x = Inl TypeError"

text \<open>Numbers compare by value across bool, int and float.\<close>

fun num_val :: "json \<Rightarrow> rat option" where
  "num_val (JBool b) = Some (if b then 1 else 0)"
| "num_val (JInt i) = Some (of_int i)"
| "num_val (JFloat q) = Some q"
| "num_val x = None"

text \<open>\<^verbatim>\<open>x == y\<close>, which never raises on these values.\<close>

fun py_eq :: "json \<Rightarrow> json \<Rightarrow> bool" where
  "py_eq (JStr s) y = (case y of JStr t \<Rightarrow> s = t | _ \<Rightarrow> False)"
| "py_eq JNull y = (y = JNull)"
| "py_eq (JArr xs) y = (case y of JArr ys \<Rightarrow> list_all2 py_eq xs ys | _ \<Rightarrow> False)"
| "py_eq (JObj kvs) y =
     (case y of
        JObj kws \<Rightarrow>
          length kvs = length kws \<and>
          list_all (\<lambda>(k, v). case map_of kws k of None \<Rightarrow> False | Some w \<Rightarrow> py_eq v w) kvs
      | _ \<Rightarrow> False)"
| "py_eq x y = (case num_val y of None \<Rightarrow> False | Some q \<Rightarrow> num_val x = Some q)"

text \<open>
  \<^verbatim>\<open>x < y\<close>: defined between two strings, between two numbers and between two
  sequences (compared at the first position where they differ, a proper prefix being
  smaller); every other pair raises \<^verbatim>\<open>TypeError\<close>.
\<close>

fun py_lt :: "json \<Rightarrow> json \<Rightarrow> error + bool"
  and py_lt_seq :: "json list \<Rightarrow> json list \<Rightarrow> error + bool" where
  "py_lt (JStr s) y = (case y of JStr t \<Rightarrow> Inr (s < t) | _ \<Rightarrow> Inl TypeError)"
| "py_lt (JArr xs) y = (case y of JArr ys \<Rightarrow> py_lt_seq xs ys | _ \<Rightarrow> Inl TypeError)"
| "py_lt JNull y = Inl TypeError"
| "py_lt (JObj kvs) y = Inl TypeError"
| "py_lt x y =
     (case num_val y of None \<Rightarrow> Inl TypeError | Some q \<Rightarrow> Inr (the (num_val x) < q))"
| "py_lt_seq [] ys = Inr (ys \<noteq> [])"
| "py_lt_seq (x # xs) [] = Inr False"
| "py_lt_seq (x # xs) (y # ys) = (if py_eq x y then py_lt_seq xs ys else py_lt x y)"

text \<open>A list and a dict cannot be the key of a dict.\<close>

fun hashable :: "json \<Rightarrow> bool" where
  "hashable (JArr xs) = False"
| "hashable (JObj kvs) = False"
| "hashable x = True"

text \<open>
  A dict whose keys are arbitrary hashable values: its items in insertion order. A
  lookup finds the first item whose stored key equals the given one.
\<close>

type_synonym 'v pydict = "(json \<times> 'v) list"

fun dict_get :: "json \<Rightarrow> 'v pydict \<Rightarrow> 'v option" where
  "dict_get k [] = None"
| "dict_get k ((k', v) # d) = (if py_eq k' k then Some v else dict_get k d)"

fun dict_pop :: "json \<Rightarrow> 'v pydict \<Rightarrow> 'v pydict" where
  "dict_pop k [] = []"
| "dict_pop k ((k', v) # d) = (if py_eq k' k then d else (k', v) # dict_pop k d)"

text \<open>\<^verbatim>\<open>d[k] = v\<close>: an existing key keeps its place, a new key goes last.\<close>

fun dict_set :: "json \<Rightarrow> 'v \<Rightarrow> 'v pydict \<Rightarrow> 'v pydict" where
  "dict_set k v [] = [(k, v)]"
| "dict_set k v ((k', v') # d) =
     (if py_eq k' k then (k', v) # d else (k', v') # dict_set k v d)"

text \<open>\<^verbatim>\<open>dict(items)\<close> and \<^verbatim>\<open>{**d, **items}\<close> store the items one after the other.\<close>

definition dict_update :: "'v pydict \<Rightarrow> (json \<times> 'v) list \<Rightarrow> 'v pydict" where
  "dict_update d items = fold (\<lambda>kv acc. dict_set (fst kv) (snd kv) acc) items d"

text \<open>\<^verbatim>\<open>d.setdefault(k, []).append(b)\<close>\<close>

fun setdefault_append :: "json \<Rightarrow> 'v \<Rightarrow> 'v list pydict \<Rightarrow> 'v list pydict" where
  "setdefault_append k b [] = [(k, [b])]"
| "setdefault_append k b ((k', bs) # d) =
     (if py_eq k' k then (k', bs @ [b]) # d else (k', bs) # setdefault_append k b d)"

text \<open>
  \<^verbatim>\<open>sorted(xs)\<close> and \<^verbatim>\<open>xs.sort()\<close> are stable; they are modelled by insertion from
  the right, where an element goes in front of the first one that is not smaller. Only
  \<^verbatim>\<open><\<close> is used to compare, and a comparison that raises ends the sort. Where all
  elements can be compared, the result is that of any stable sort; where two of them
  cannot, Python's sort raises \<^verbatim>\<open>TypeError\<close> too, though it may get there by other
  comparisons.
\<close>

fun insort_by :: "('a \<Rightarrow> 'a \<Rightarrow> error + bool) \<Rightarrow> 'a \<Rightarrow> 'a list \<Rightarrow> error + 'a list" where
  "insort_by lt x [] = Inr [x]"
| "insort_by lt x (y # ys) =
     andthen (lt y x)
       (\<lambda>smaller. if smaller then andthen (insort_by lt x ys) (\<lambda>zs. Inr (y # zs))
          else Inr (x # y # ys))"

fun sort_by :: "('a \<Rightarrow> 'a \<Rightarrow> error + bool) \<Rightarrow> 'a list \<Rightarrow> error + 'a list" where
  "sort_by lt [] = Inr []"
| "sort_by lt (x # xs) = andthen (sort_by lt xs) (insort_by lt x)"

text \<open>
  \<^verbatim>\<open>xs.sort(key=f, reverse=True)\<close>: the keys are computed first; the list is reversed,
  sorted and reversed again, so that elements with equal keys keep their order.
\<close>

definition list_sort_key_reverse :: "('a \<Rightarrow> error + json) \<Rightarrow> 'a list \<Rightarrow> error + 'a list" where
  "list_sort_key_reverse f xs =
     andthen (map_result (\<lambda>x. andthen (f x) (\<lambda>k. Inr (k, x))) xs)
       (\<lambda>keyed. andthen (sort_by (\<lambda>a b. py_lt (fst a) (fst b)) (rev keyed))
          (\<lambda>ys. Inr (map snd (rev ys))))"

text \<open>\<^verbatim>\<open>b.get(k, default)\<close>, a method of dicts only.\<close>

fun dict_method_get :: "json \<Rightarrow> string \<Rightarrow> json \<Rightarrow> error + json" where
  "dict_method_get (JObj kvs) k dflt =
     Inr (case map_of kvs k of None \<Rightarrow> dflt | Some v \<Rightarrow> v)"
| "dict_method_get x k dflt = Inl AttributeError"

text \<open>\<^verbatim>\<open>sep.join(xs)\<close>\<close>

fun join :: "string \<Rightarrow> string list \<Rightarrow> string" where
  "join sep [] = []"
| "join sep [x] = x"
| "join sep (x # y # ys) = x @ sep @ join sep (y # ys)"

text \<open>
  A replacement field of an f-string: a str is inserted as it is, any other value as
  the text \<^verbatim>\<open>str\<close> gives for it, which is a parameter \<open>str_of\<close> of the model.
\<close>

definition format_value :: "(json \<Rightarrow> string) \<Rightarrow> json \<Rightarrow> string" where
  "format_value str_of v = (case v of JStr s \<Rightarrow> s | _ \<Rightarrow> str_of v)"

text \<open>\<^verbatim>\<open>s.find(sub)\<close>: the lowest index where \<open>sub\<close> occurs, or \<open>-1\<close>.\<close>

primrec str_find :: "string \<Rightarrow> string \<Rightarrow> int" where
  "str_find [] sub = (if sub = [] then 0 else -1)"
| "str_find (c # s) sub =
     (if prefix sub (c # s) then 0
      else (let r = str_find s sub in if r = -1 then -1 else r + 1))"

text \<open>The slices \<^verbatim>\<open>s[:n]\<close> and \<^verbatim>\<open>s[n:]\<close>; a negative bound counts from the end.\<close>

definition slice_to :: "'a list \<Rightarrow> int \<Rightarrow> 'a list" where
  "slice_to s n = (if n < 0 then take (nat (int (length s) + n)) s else take (nat n) s)"

definition slice_from :: "'a list \<Rightarrow> int \<Rightarrow> 'a list" where
  "slice_from s n = (if n < 0 then drop (nat (int (length s) + n)) s else drop (nat n) s)"

subsection \<open>Constants of the script\<close>

definition START_MARKER :: string where
  "START_MARKER = ''<!-- CREDLY_BADGES_START -->''"

definition END_MARKER :: string where
  "END_MARKER = ''<!-- CREDLY_BADGES_END -->''"

definition ISSUER_ORDER :: "string list" where
  "ISSUER_ORDER = [''The Linux Foundation'', ''IBM'', ''Isovalent'']"

subsection \<open>\<^verbatim>\<open>fetch_badges\<close>\<close>

text \<open>
  The request, the read of the body and \<^verbatim>\<open>json.loads\<close> are the environment's: their
  outcome \<open>response\<close> is either the exception one of them raised or the parsed body.
\<close>

definition fetch_badges :: "error + json \<Rightarrow> error + json" where
  "fetch_badges response = andthen response (\<lambda>body. subscript_str body ''data'')"

subsection \<open>\<^verbatim>\<open>issuer_name\<close>\<close>

definition issuer_lookup :: "json \<Rightarrow> error + json" where
  "issuer_lookup badge =
     andthen (subscript_str badge ''badge_template'') (\<lambda>tmpl.
     andthen (subscript_str tmpl ''issuer'') (\<lambda>issuer.
     andthen (subscript_str issuer ''entities'') (\<lambda>entities.
     andthen (subscript_int entities 0) (\<lambda>first.
     andthen (subscript_str first ''entity'') (\<lambda>entity.
     subscript_str entity ''name'')))))"

definition issuer_name :: "json \<Rightarrow> error + json" where
  "issuer_name badge =
     (case issuer_lookup badge of
        Inl KeyError \<Rightarrow> Inr (JStr ''Other'')
      | Inl IndexError \<Rightarrow> Inr (JStr ''Other'')
      | r \<Rightarrow> r)"

subsection \<open>\<^verbatim>\<open>group_badges\<close>\<close>

type_synonym groups = "json list pydict"

text \<open>The first loop: each badge is appended to the list of its issuer.\<close>

fun collect :: "json list \<Rightarrow> groups \<Rightarrow> error + groups" where
  "collect [] groups = Inr groups"
| "collect (badge # rest) groups =
     andthen (issuer_name badge)
       (\<lambda>issuer. if hashable issuer then collect rest (setdefault_append issuer badge groups)
          else Inl TypeError)"

definition issued_at_date :: "json \<Rightarrow> error + json" where
  "issued_at_date b = dict_method_get b ''issued_at_date'' (JStr [])"

text \<open>The second loop sorts the list of every group in place.\<close>

fun sort_groups :: "groups \<Rightarrow> error + groups" where
  "sort_groups [] = Inr []"
| "sort_groups ((issuer, grp) # rest) =
     andthen (list_sort_key_reverse issued_at_date grp)
       (\<lambda>sorted_grp. andthen (sort_groups rest) (\<lambda>rest'. Inr ((issuer, sorted_grp) # rest')))"

text \<open>
  \<^verbatim>\<open>{name: groups.pop(name) for name in ISSUER_ORDER if name in groups}\<close>: the result
  is the new dict together with what is left of \<open>groups\<close>.
\<close>

fun pop_known :: "string list \<Rightarrow> groups \<Rightarrow> groups \<Rightarrow> groups \<times> groups" where
  "pop_known [] groups known = (known, groups)"
| "pop_known (name # names) groups known =
     (case dict_get (JStr name) groups of
        None \<Rightarrow> pop_known names groups known
      | Some grp \<Rightarrow>
          pop_known names (dict_pop (JStr name) groups) (dict_set (JStr name) grp known))"

text \<open>
  The items of a dict are pairs, and pairs compare as sequences of length two: by the
  keys if these differ, by the values otherwise.
\<close>

definition item_lt :: "json \<times> json list \<Rightarrow> json \<times> json list \<Rightarrow> error + bool" where
  "item_lt a b = py_lt_seq [fst a, JArr (snd a)] [fst b, JArr (snd b)]"

definition order_groups :: "groups \<Rightarrow> error + groups" where
  "order_groups groups =
     (case pop_known ISSUER_ORDER groups [] of
        (known, remaining) \<Rightarrow>
          andthen (sort_by item_lt remaining)
            (\<lambda>items. Inr (dict_update known (dict_update [] items))))"

definition group_badges :: "json \<Rightarrow> error + groups" where
  "group_badges badges =
     andthen (py_iter badges) (\<lambda>bs.
     andthen (collect bs []) (\<lambda>groups.
     andthen (sort_groups groups) order_groups))"

subsection \<open>\<^verbatim>\<open>badge_html\<close> and \<^verbatim>\<open>render_section\<close>\<close>

definition badge_html :: "(json \<Rightarrow> string) \<Rightarrow> json \<Rightarrow> error + string" where
  \<open>badge_html str_of badge =
     andthen (subscript_str badge ''id'') (\<lambda>badge_id.
     andthen (subscript_str badge ''badge_template'') (\<lambda>tmpl.
     andthen (subscript_str tmpl ''name'') (\<lambda>name.
     andthen (subscript_str tmpl ''image_url'') (\<lambda>image_url.
       Inr (''<a href="https://www.credly.com/badges/'' @ format_value str_of badge_id
            @ ''/public_url">''
            @ ''<img height="90" width="90" src="'' @ format_value str_of image_url
            @ ''" alt="'' @ format_value str_of name @ ''"/></a>'')))))\<close>

text \<open>The loop of \<^verbatim>\<open>render_section\<close>, with the list \<open>lines\<close> it appends to.\<close>

fun render_loop :: "(json \<Rightarrow> string) \<Rightarrow> groups \<Rightarrow> string list \<Rightarrow> error + string list" where
  "render_loop str_of [] lines = Inr lines"
| "render_loop str_of ((issuer, badges) # rest) lines =
     andthen (map_result (badge_html str_of) badges)
       (\<lambda>htmls. render_loop str_of rest
          (lines @ [''**'' @ format_value str_of issuer @ ''**'', [], join '' '' htmls, []]))"

definition render_section :: "(json \<Rightarrow> string) \<Rightarrow> groups \<Rightarrow> error + string" where
  "render_section str_of grouped =
     andthen (render_loop str_of grouped [''### Certificates & Badges'', []])
       (\<lambda>lines. Inr (join [CHR 0x0A] lines))"

subsection \<open>\<^verbatim>\<open>update_readme\<close> and \<^verbatim>\<open>main\<close>\<close>

text \<open>
  What a run does to the outside: it reads the README, writes it, and prints to the
  standard and the error stream. The world is the text of the README together with the
  events so far. The README is taken to exist and to be readable and writable.
\<close>

datatype event =
    ReadText
  | WriteText string
  | Stdout string
  | Stderr string

record world =
  document :: string
  trace :: "event list"

definition emit :: "event list \<Rightarrow> world \<Rightarrow> world" where
  "emit evs w = w\<lparr>trace := trace w @ evs\<rparr>"

definition new_content :: "string \<Rightarrow> int \<Rightarrow> int \<Rightarrow> string \<Rightarrow> string" where
  "new_content readme start end_pos section_content =
     slice_to readme (start + int (length START_MARKER))
     @ [CHR 0x0A] @ section_content @ slice_from readme end_pos"

definition update_readme :: "string \<Rightarrow> world \<Rightarrow> (error + unit) \<times> world" where
  "update_readme section_content w =
     (let readme = document w;
          w1 = emit [ReadText] w;
          start = str_find readme START_MARKER;
          end_pos = str_find readme END_MARKER
      in if start = -1 \<or> end_pos = -1
         then (Inl (SystemExit 1),
               emit [Stderr ''ERROR: Marker comments not found in README.md''] w1)
         else if new_content readme start end_pos section_content = readme
         then (Inr (), emit [Stdout ''No changes needed.''] w1)
         else (Inr (),
               emit [WriteText (new_content readme start end_pos section_content),
                     Stdout ''README.md updated with badges.'']
                 (w1\<lparr>document := new_content readme start end_pos section_content\<rparr>)))"

text \<open>
  \<open>exc_text\<close> is the text Python gives for an exception in the warning. An exception
  that nothing catches ends the run and is the result; the traceback that the
  interpreter then prints is not an event of the script.
\<close>

definition main ::
  "(json \<Rightarrow> string) \<Rightarrow> (error \<Rightarrow> string) \<Rightarrow> error + json \<Rightarrow> world \<Rightarrow> (error + unit) \<times> world" where
  "main str_of exc_text response w =
     (case fetch_badges response of
        Inl e \<Rightarrow>
          if is_Exception e
          then (Inl (SystemExit 0),
                emit [Stderr (''WARNING: Failed to fetch badges: '' @ exc_text e),
                      Stdout ''Keeping existing README content.''] w)
          else (Inl e, w)
      | Inr badges \<Rightarrow>
          (case group_badges badges of
             Inl e \<Rightarrow> (Inl e, w)
           | Inr grouped \<Rightarrow>
               (case render_section str_of grouped of
                  Inl e \<Rightarrow> (Inl e, w)
                | Inr section_content \<Rightarrow> update_readme section_content w)))"

text \<open>
  The exit status of the process: 0 when \<open>main\<close> returns, the argument of
  \<^verbatim>\<open>sys.exit\<close>, and 1 after an uncaught exception.
\<close>

fun exit_status :: "error + unit \<Rightarrow> nat" where
  "exit_status (Inr u) = 0"
| "exit_status (Inl (SystemExit n)) = n"
| "exit_status (Inl e) = 1"

definition writes :: "world \<Rightarrow> nat" where
  "writes w = length (filter (\<lambda>ev. case ev of WriteText c \<Rightarrow> True | _ \<Rightarrow> False) (trace w))"

definition reads :: "world \<Rightarrow> nat" where
  "reads w = length (filter (\<lambda>ev. ev = ReadText) (trace w))"

section \<open>The specification's reading of the data\<close>

text \<open>
  The specification describes the issuer of a badge by optional chaining:
  \<^verbatim>\<open>badge.badge_template.issuer.entities[0].entity.name\<close>, and the sentinel
  \<^verbatim>\<open>Other\<close> when a step is missing or the list is empty. \<open>field\<close> and
  \<open>first_element\<close> are the steps of that chain; \<open>spec_issuer_name\<close> follows the
  specification's words, not the code.
\<close>

fun field :: "string \<Rightarrow> json \<Rightarrow> json option" where
  "field k (JObj kvs) = map_of kvs k"
| "field k x = None"




fun is_obj :: "json \<Rightarrow> bool" where
  "is_obj (JObj kvs) = True"
| "is_obj x = False"



subsection \<open>Names used in the statements about grouping, rendering and runs\<close>

text \<open>
  Two values of which one is hashable are equal for Python exactly when their normal
  forms are the same: a bool and an int are read as the number they stand for.
\<close>

fun key_norm :: "json \<Rightarrow> json" where
  "key_norm (JBool b) = JFloat (if b then 1 else 0)"
| "key_norm (JInt i) = JFloat (of_int i)"
| "key_norm x = x"

text \<open>
  Names for what the claims about the grouping speak of: the issuer and the date of a
  badge as the code derives them, and whether they are strings as the specification's
  data model has them.
\<close>

definition date_str :: "json \<Rightarrow> string" where
  "date_str b = (case issued_at_date b of Inr (JStr s) \<Rightarrow> s | _ \<Rightarrow> [])"

definition has_date_str :: "json \<Rightarrow> bool" where
  "has_date_str b = (case issued_at_date b of Inr (JStr s) \<Rightarrow> True | _ \<Rightarrow> False)"

definition nkeys :: "'v pydict \<Rightarrow> json list" where
  "nkeys d = map (\<lambda>kv. key_norm (fst kv)) d"

definition the_issuer :: "json \<Rightarrow> json" where
  "the_issuer b = (case issuer_name b of Inr v \<Rightarrow> v | Inl e \<Rightarrow> JNull)"

definition raw_groups :: "json list \<Rightarrow> groups \<Rightarrow> groups" where
  "raw_groups bs d = fold (\<lambda>b. setdefault_append (the_issuer b) b) bs d"

definition classified :: "json \<Rightarrow> bool" where
  "classified b = (case issuer_name b of Inr v \<Rightarrow> hashable v | Inl e \<Rightarrow> False)"

definition picks :: "string list \<Rightarrow> groups \<Rightarrow> groups" where
  "picks names d =
     concat (map (\<lambda>n. case map_of d (JStr n) of None \<Rightarrow> [] | Some grp \<Rightarrow> [(JStr n, grp)]) names)"

definition unlisted :: "string list \<Rightarrow> groups \<Rightarrow> groups" where
  "unlisted names d = filter (\<lambda>kv. fst kv \<notin> JStr ` set names) d"

definition str_issuer :: "json \<Rightarrow> bool" where
  "str_issuer b = (case issuer_name b of Inr (JStr s) \<Rightarrow> True | _ \<Rightarrow> False)"

definition issuer_str :: "json \<Rightarrow> string" where
  "issuer_str b = (case issuer_name b of Inr (JStr s) \<Rightarrow> s | _ \<Rightarrow> [])"

definition key_str :: "json \<times> 'v \<Rightarrow> string" where
  "key_str kv = (case fst kv of JStr s \<Rightarrow> s | _ \<Rightarrow> [])"

text \<open>
  The lines one group contributes to the rendered section, and the section as the
  specification's sentence lists its lines, with the heading directly followed by the
  first group (\<open>spec_render_section\<close> follows those words, not the code).
\<close>

definition group_block :: "(json \<Rightarrow> string) \<Rightarrow> json \<times> json list \<Rightarrow> error + string list" where
  "group_block str_of item =
     andthen (map_result (badge_html str_of) (snd item))
       (\<lambda>htmls. Inr [''**'' @ format_value str_of (fst item) @ ''**'', [], join '' '' htmls, []])"

definition spec_render_section :: "(json \<Rightarrow> string) \<Rightarrow> groups \<Rightarrow> error + string" where
  "spec_render_section str_of grouped =
     andthen (map_result (group_block str_of) grouped)
       (\<lambda>blocks. Inr (join [CHR 0x0A] (''### Certificates & Badges'' # concat blocks)))"



section \<open>Sample data\<close>


definition sample_readme :: world where
  "sample_readme =
     \<lparr>document = ''X'' @ START_MARKER @ ''OLD'' @ END_MARKER @ ''Y'', trace = []\<rparr>"



definition sample_badge :: "string \<Rightarrow> string \<Rightarrow> string \<Rightarrow> json" where
  "sample_badge ident issuer date =
     JObj [(''id'', JStr ident),
           (''issued_at_date'', JStr date),
           (''badge_template'',
            JObj [(''name'', JStr (''Badge '' @ ident)),
                  (''image_url'', JStr (''https://images.example/'' @ ident)),
                  (''issuer'',
                   JObj [(''entities'',
                          JArr [JObj [(''entity'', JObj [(''name'', JStr issuer)])]])])])]"

definition sample_badges :: "json list" where
  "sample_badges =
     [sample_badge ''1'' ''IBM'' ''2020-01-01'',
      sample_badge ''2'' ''Acme'' ''2021-05-05'',
      sample_badge ''3'' ''IBM'' ''2022-03-03'',
      sample_badge ''4'' ''IBM'' ''2020-01-01'']"

definition sample_grouped :: groups where
  "sample_grouped =
     [(JStr ''IBM'',
       [sample_badge ''3'' ''IBM'' ''2022-03-03'',
        sample_badge ''1'' ''IBM'' ''2020-01-01'',
        sample_badge ''4'' ''IBM'' ''2020-01-01'']),
      (JStr ''Acme'', [sample_badge ''2'' ''Acme'' ''2021-05-05''])]"

definition unordered_badges :: "json list" where
  "unordered_badges =
     [sample_badge ''1'' ''Isovalent'' ''2020-01-01'',
      sample_badge ''2'' ''Unknown Co'' ''2021-05-05'',
      sample_badge ''3'' ''IBM'' ''2022-03-03'',
      sample_badge ''4'' ''Acme'' ''2019-09-09'']"

definition ibm_group :: groups where
  "ibm_group = [(JStr ''IBM'', [sample_badge ''7'' ''IBM'' ''2020-01-01''])]"


text \<open>Sample values for the two parameters of the model, and sample responses.\<close>

definition sample_str_of :: "json \<Rightarrow> string" where
  "sample_str_of v = ''?''"

definition sample_exc_text :: "error \<Rightarrow> string" where
  "sample_exc_text e = ''error''"







section \<open>Properties\<close>

subsection \<open>The issuer classifier\<close>

lemma subscript_str_cases:
  "subscript_str x k =
     (if is_obj x then (case field k x of None \<Rightarrow> Inl KeyError | Some v \<Rightarrow> Inr v)
      else Inl TypeError)"
  by (cases x) simp_all







subsection \<open>The document patcher\<close>


lemma document_emit: "document (emit evs w) = document w"
  by (simp add: emit_def)

lemma writes_emit:
  "writes (emit evs w) =
     writes w + length (filter (\<lambda>ev. case ev of WriteText c \<Rightarrow> True | _ \<Rightarrow> False) evs)"
  by (simp add: emit_def writes_def)

lemma reads_emit: "reads (emit evs w) = reads w + length (filter (\<lambda>ev. ev = ReadText) evs)"
  by (simp add: emit_def reads_def)




























subsection \<open>The orchestrator\<close>

text \<open>
  Claim C8. When \<open>fetch_badges\<close> raises an exception (the request, the read or the
  parser raised, the body is not a dict, or it has no key \<^verbatim>\<open>data\<close>), \<open>main\<close> prints
  the warning and the notice, leaves through \<^verbatim>\<open>sys.exit(0)\<close>, and has neither read
  nor written the document.
\<close>

theorem main_fetch_failure:
  assumes "fetch_badges response = Inl e" and "is_Exception e"
  shows "main str_of exc_text response w =
           (Inl (SystemExit 0),
            emit [Stderr (''WARNING: Failed to fetch badges: '' @ exc_text e),
                  Stdout ''Keeping existing README content.''] w)
         \<and> exit_status (fst (main str_of exc_text response w)) = 0
         \<and> document (snd (main str_of exc_text response w)) = document w
         \<and> reads (snd (main str_of exc_text response w)) = reads w
         \<and> writes (snd (main str_of exc_text response w)) = writes w"
  using assms by (simp add: main_def document_emit reads_emit writes_emit)

lemma fetch_badges_raises:
  "fetch_badges (Inl e) = Inl e"
  "\<not> is_obj body \<Longrightarrow> fetch_badges (Inr body) = Inl TypeError"
  "is_obj body \<Longrightarrow> field ''data'' body = None \<Longrightarrow> fetch_badges (Inr body) = Inl KeyError"
  by (simp_all add: fetch_badges_def subscript_str_cases)

theorem main_fetch_failure_witness:
  "fetch_badges (Inr (JArr [])) = Inl TypeError \<and> is_Exception TypeError
   \<and> main sample_str_of sample_exc_text (Inr (JArr [])) sample_readme =
       (Inl (SystemExit 0),
        emit [Stderr ''WARNING: Failed to fetch badges: error'',
              Stdout ''Keeping existing README content.''] sample_readme)"
proof -
  have f: "fetch_badges (Inr (JArr [])) = Inl TypeError"
    by (simp add: fetch_badges_def)
  have x: "is_Exception TypeError" by simp
  from main_fetch_failure [OF f x, of sample_str_of sample_exc_text sample_readme] f x
  show ?thesis by (simp add: sample_exc_text_def)
qed

subsection \<open>Results, sorting and comparison\<close>

lemma py_eq_key_norm: "hashable x \<or> hashable y \<Longrightarrow> py_eq x y = (key_norm x = key_norm y)"
  by (cases x; cases y) auto

lemma py_eq_JStr [simp]: "py_eq k (JStr s) = (k = JStr s)"
  by (cases k) auto

lemma andthen_Inr_iff: "andthen r f = Inr y \<longleftrightarrow> (\<exists>x. r = Inr x \<and> f x = Inr y)"
  by (cases r) simp_all


lemma map_result_Inr_iff:
  "map_result f xs = Inr ys \<longleftrightarrow> list_all2 (\<lambda>x y. f x = Inr y) xs ys"
proof (induction xs arbitrary: ys)
  case Nil
  show ?case by auto
next
  case (Cons x xs)
  show ?case
    by (cases ys) (auto simp: andthen_Inr_iff Cons.IH)
qed


lemma map_result_total:
  "(\<And>x. x \<in> set xs \<Longrightarrow> f x = Inr (g x)) \<Longrightarrow> map_result f xs = Inr (map g xs)"
  by (induction xs) simp_all

lemma insort_by_mset:
  "insort_by lt x ys = Inr zs \<Longrightarrow> mset zs = add_mset x (mset ys)"
proof (induction ys arbitrary: zs)
  case Nil
  then show ?case by auto
next
  case (Cons y ys)
  then show ?case
    by (auto simp: andthen_Inr_iff split: if_splits)
qed

lemma sort_by_mset: "sort_by lt xs = Inr ys \<Longrightarrow> mset ys = mset xs"
proof (induction xs arbitrary: ys)
  case Nil
  then show ?case by simp
next
  case (Cons x xs)
  then show ?case
    by (auto simp: andthen_Inr_iff dest: insort_by_mset)
qed

lemma insort_by_key:
  fixes k :: "'a \<Rightarrow> 'b :: linorder"
  assumes "\<And>y. y \<in> set ys \<Longrightarrow> lt y x = Inr (k y < k x)"
  shows "insort_by lt x ys = Inr (insort_key k x ys)"
  using assms by (induction ys) (auto simp: not_less)

lemma sort_by_key:
  fixes k :: "'a \<Rightarrow> 'b :: linorder"
  assumes "sorted_wrt (\<lambda>x y. lt y x = Inr (k y < k x)) xs"
  shows "sort_by lt xs = Inr (sort_key k xs)"
  using assms
proof (induction xs)
  case Nil
  show ?case by simp
next
  case (Cons x xs)
  then have rest: "sort_by lt xs = Inr (sort_key k xs)" by simp
  from Cons.prems have "\<And>y. y \<in> set (sort_key k xs) \<Longrightarrow> lt y x = Inr (k y < k x)"
    by simp
  then have "insort_by lt x (sort_key k xs) = Inr (insort_key k x (sort_key k xs))"
    by (rule insort_by_key)
  with rest show ?case by simp
qed




subsection \<open>The grouper\<close>

lemma has_date_str_eq: "has_date_str b \<Longrightarrow> issued_at_date b = Inr (JStr (date_str b))"
  by (auto simp: has_date_str_def date_str_def split: sum.splits json.splits)

lemma insort_key_map_pair:
  "insort_key (\<lambda>p. k (snd p)) (f x, x) (map (\<lambda>x. (f x, x)) ys)
   = map (\<lambda>x. (f x, x)) (insort_key k x ys)"
  by (induction ys) simp_all

lemma sort_key_map_pair:
  "sort_key (\<lambda>p. k (snd p)) (map (\<lambda>x. (f x, x)) xs) = map (\<lambda>x. (f x, x)) (sort_key k xs)"
  by (induction xs) (simp_all add: insort_key_map_pair)

lemma list_sort_key_reverse_mset:
  assumes "list_sort_key_reverse f xs = Inr ys"
  shows "mset ys = mset xs"
proof -
  from assms obtain keyed sorted where
    keyed: "map_result (\<lambda>x. andthen (f x) (\<lambda>k. Inr (k, x))) xs = Inr keyed"
    and sorted: "sort_by (\<lambda>a b. py_lt (fst a) (fst b)) (rev keyed) = Inr sorted"
    and ys: "ys = map snd (rev sorted)"
    by (auto simp: list_sort_key_reverse_def andthen_Inr_iff)
  from keyed have "list_all2 (\<lambda>x p. snd p = x) xs keyed"
    by (auto simp: map_result_Inr_iff andthen_Inr_iff elim: list_all2_mono)
  then have "map snd keyed = xs"
    by (induction rule: list_all2_induct) simp_all
  moreover from sort_by_mset [OF sorted] have "mset sorted = mset keyed" by simp
  ultimately show ?thesis
    by (metis ys mset_map mset_rev rev_map)
qed

lemma list_sort_key_reverse_strings:
  assumes "\<And>x. x \<in> set xs \<Longrightarrow> f x = Inr (JStr (k x))"
  shows "list_sort_key_reverse f xs = Inr (rev (sort_key k (rev xs)))"
proof -
  let ?pair = "\<lambda>x. (JStr (k x), x)"
  let ?lt = "\<lambda>a b :: json \<times> 'a. py_lt (fst a) (fst b)"
  from assms have keyed: "map_result (\<lambda>x. andthen (f x) (\<lambda>k. Inr (k, x))) xs = Inr (map ?pair xs)"
    by (intro map_result_total) simp
  have "\<And>x y. x \<in> set (map ?pair (rev xs)) \<Longrightarrow> y \<in> set (map ?pair (rev xs)) \<Longrightarrow>
          ?lt y x = Inr (k (snd y) < k (snd x))"
    by auto
  then have "sorted_wrt (\<lambda>x y. ?lt y x = Inr (k (snd y) < k (snd x))) (map ?pair (rev xs))"
    by (simp add: sorted_wrt_iff_nth_less)
  from sort_by_key [OF this]
  have "sort_by ?lt (rev (map ?pair xs)) = Inr (map ?pair (sort_key k (rev xs)))"
    by (simp add: rev_map sort_key_map_pair [of k "\<lambda>x. JStr (k x)" "rev xs"])
  with keyed show ?thesis
    by (simp add: list_sort_key_reverse_def rev_map comp_def)
qed


lemma nkeys_simps [simp]:
  "nkeys [] = []"
  "nkeys ((k, v) # d) = key_norm k # nkeys d"
  "nkeys (d @ d') = nkeys d @ nkeys d'"
  by (simp_all add: nkeys_def)

lemma key_norm_JStr [simp]: "(key_norm k = JStr s) = (k = JStr s)"
  by (cases k) auto

lemma JStr_key_norm [simp]: "(JStr s = key_norm k) = (k = JStr s)"
  by (cases k) auto

lemma hashable_key_norm [simp]: "hashable (key_norm k) = hashable k"
  by (cases k) auto

lemma dict_get_None:
  "hashable k \<Longrightarrow> (dict_get k d = None) = (key_norm k \<notin> set (nkeys d))"
  by (induction d) (auto simp: py_eq_key_norm split: if_splits)

lemma dict_get_Some_mem:
  "hashable k \<Longrightarrow> dict_get k d = Some v \<Longrightarrow> \<exists>k'. (k', v) \<in> set d \<and> key_norm k' = key_norm k"
  by (induction d) (auto simp: py_eq_key_norm split: if_splits)

lemma dict_get_mem:
  "hashable k \<Longrightarrow> distinct (nkeys d) \<Longrightarrow> (k', v) \<in> set d \<Longrightarrow> key_norm k' = key_norm k
   \<Longrightarrow> dict_get k d = Some v"
proof (induction d)
  case Nil
  then show ?case by simp
next
  case (Cons kv d)
  obtain k0 v0 where kv: "kv = (k0, v0)" by (cases kv)
  show ?case
  proof (cases "key_norm k0 = key_norm k")
    case True
    with Cons.prems kv have "(k', v) \<notin> set d"
      by (force simp: nkeys_def)
    with Cons.prems kv True show ?thesis by (simp add: py_eq_key_norm)
  next
    case False
    with Cons kv show ?thesis by (auto simp: py_eq_key_norm)
  qed
qed

lemma nkeys_setdefault_append:
  "hashable k \<Longrightarrow>
   nkeys (setdefault_append k b d)
   = (if key_norm k \<in> set (nkeys d) then nkeys d else nkeys d @ [key_norm k])"
  by (induction d) (auto simp: py_eq_key_norm)

lemma map_fst_setdefault_append:
  "map fst (setdefault_append k b d) = map fst d
   \<or> map fst (setdefault_append k b d) = map fst d @ [k]"
proof (induction d)
  case Nil
  show ?case by simp
next
  case (Cons kv d)
  obtain k0 v0 where kv: "kv = (k0, v0)" by (cases kv)
  from Cons.IH show ?case
    by (cases "py_eq k0 k") (auto simp: kv)
qed

lemma keys_setdefault_append:
  "fst ` set (setdefault_append k b d) \<subseteq> insert k (fst ` set d)"
proof -
  from map_fst_setdefault_append [of k b d]
  have "set (map fst (setdefault_append k b d)) = set (map fst d)
        \<or> set (map fst (setdefault_append k b d)) = set (map fst d @ [k])"
    by (elim disjE) (simp_all only: simp_thms)
  then show ?thesis by auto
qed

lemma mset_setdefault_append:
  "mset (concat (map snd (setdefault_append k b d))) = add_mset b (mset (concat (map snd d)))"
  by (induction d) auto

lemma dict_get_setdefault_append:
  "hashable k \<Longrightarrow> hashable k' \<Longrightarrow>
   dict_get k' (setdefault_append k b d)
   = (if key_norm k' = key_norm k
      then Some ((case dict_get k' d of None \<Rightarrow> [] | Some l \<Rightarrow> l) @ [b])
      else dict_get k' d)"
  by (induction d) (auto simp: py_eq_key_norm)

lemma raw_groups_simps [simp]:
  "raw_groups [] d = d"
  "raw_groups (b # bs) d = raw_groups bs (setdefault_append (the_issuer b) b d)"
  by (simp_all add: raw_groups_def)

lemma classified_issuer: "classified b \<Longrightarrow> issuer_name b = Inr (the_issuer b) \<and> hashable (the_issuer b)"
  by (auto simp: classified_def the_issuer_def split: sum.splits)

lemma collect_Inr:
  "collect bs d = Inr d' \<Longrightarrow> d' = raw_groups bs d \<and> (\<forall>b\<in>set bs. classified b)"
proof (induction bs arbitrary: d)
  case Nil
  then show ?case by simp
next
  case (Cons b bs)
  from Cons.prems obtain v where v: "issuer_name b = Inr v" "hashable v"
    and rest: "collect bs (setdefault_append v b d) = Inr d'"
    by (auto simp: andthen_Inr_iff split: if_splits)
  from v have "classified b" "the_issuer b = v"
    by (simp_all add: classified_def the_issuer_def)
  with Cons.IH [OF rest] show ?case by simp
qed

lemma collect_total:
  "\<forall>b\<in>set bs. classified b \<Longrightarrow> collect bs d = Inr (raw_groups bs d)"
proof (induction bs arbitrary: d)
  case Nil
  then show ?case by simp
next
  case (Cons b bs)
  then show ?case by (simp add: classified_issuer)
qed



lemma raw_groups_mset:
  "mset (concat (map snd (raw_groups bs d))) = mset (concat (map snd d)) + mset bs"
  by (induction bs arbitrary: d) (simp_all add: mset_setdefault_append)

lemma raw_groups_distinct:
  "\<forall>b\<in>set bs. classified b \<Longrightarrow> distinct (nkeys d) \<Longrightarrow> distinct (nkeys (raw_groups bs d))"
  by (induction bs arbitrary: d) (simp_all add: nkeys_setdefault_append classified_issuer)

lemma raw_groups_keys:
  "fst ` set (raw_groups bs d) \<subseteq> fst ` set d \<union> the_issuer ` set bs"
proof (induction bs arbitrary: d)
  case Nil
  show ?case by simp
next
  case (Cons b bs)
  from Cons.IH [of "setdefault_append (the_issuer b) b d"]
    keys_setdefault_append [of "the_issuer b" b d]
  show ?case by auto
qed

lemma raw_groups_get:
  assumes "\<forall>b\<in>set bs. classified b" and "hashable k"
  shows "dict_get k (raw_groups bs d)
         = (case dict_get k d of
              None \<Rightarrow> (if filter (\<lambda>b. key_norm (the_issuer b) = key_norm k) bs = [] then None
                        else Some (filter (\<lambda>b. key_norm (the_issuer b) = key_norm k) bs))
            | Some l \<Rightarrow> Some (l @ filter (\<lambda>b. key_norm (the_issuer b) = key_norm k) bs))"
  using assms(1)
proof (induction bs arbitrary: d)
  case Nil
  show ?case by (simp split: option.splits)
next
  case (Cons b bs)
  from Cons.prems have cb: "hashable (the_issuer b)" and rest: "\<forall>b\<in>set bs. classified b"
    by (simp_all add: classified_issuer)
  show ?case
    unfolding raw_groups_simps Cons.IH [OF rest]
      dict_get_setdefault_append [OF cb assms(2)]
    by (auto split: option.splits)
qed

lemma dict_get_JStr: "dict_get (JStr n) d = map_of d (JStr n)"
  by (induction d) auto

lemma dict_pop_JStr:
  "distinct (map fst d) \<Longrightarrow> dict_pop (JStr n) d = filter (\<lambda>kv. fst kv \<noteq> JStr n) d"
proof (induction d)
  case Nil
  show ?case by simp
next
  case (Cons kv d)
  obtain k v where kv: "kv = (k, v)" by (cases kv)
  show ?case
  proof (cases "k = JStr n")
    case True
    with Cons.prems kv have "\<forall>p\<in>set d. fst p \<noteq> JStr n" by (auto simp: image_iff)
    then have "filter (\<lambda>kv. fst kv \<noteq> JStr n) d = d" by (simp add: filter_id_conv)
    with True kv show ?thesis by simp
  next
    case False
    with Cons kv show ?thesis by simp
  qed
qed

lemma dict_set_new:
  "hashable k \<Longrightarrow> key_norm k \<notin> set (nkeys d) \<Longrightarrow> dict_set k v d = d @ [(k, v)]"
  by (induction d) (auto simp: py_eq_key_norm)

lemma dict_update_append:
  "\<forall>k\<in>fst ` set items. hashable k \<Longrightarrow> distinct (nkeys (d @ items))
   \<Longrightarrow> dict_update d items = d @ items"
proof (induction items arbitrary: d)
  case Nil
  show ?case by (simp add: dict_update_def)
next
  case (Cons kv items)
  obtain k v where kv: "kv = (k, v)" by (cases kv)
  from Cons.prems kv have new: "dict_set k v d = d @ [(k, v)]"
    by (intro dict_set_new) auto
  from Cons.prems kv have "dict_update (d @ [(k, v)]) items = (d @ [(k, v)]) @ items"
    by (intro Cons.IH) auto
  with new kv show ?case by (simp add: dict_update_def)
qed

lemma map_of_filter_other:
  "m \<noteq> k \<Longrightarrow> map_of (filter (\<lambda>kv. fst kv \<noteq> k) d) m = map_of d m"
  by (induction d) auto

lemma picks_filter_other:
  "n \<notin> set names \<Longrightarrow> picks names (filter (\<lambda>kv. fst kv \<noteq> JStr n) d) = picks names d"
proof -
  assume "n \<notin> set names"
  then have "\<And>m. m \<in> set names \<Longrightarrow>
      map_of (filter (\<lambda>kv. fst kv \<noteq> JStr n) d) (JStr m) = map_of d (JStr m)"
    by (intro map_of_filter_other) auto
  then show ?thesis
    unfolding picks_def by (intro arg_cong [where f = concat] map_cong) simp_all
qed

lemma pop_known_char:
  assumes "distinct (map fst d)" and "distinct names"
    and "JStr ` set names \<inter> fst ` set known = {}"
  shows "pop_known names d known = (known @ picks names d, unlisted names d)"
  using assms
proof (induction names arbitrary: d known)
  case Nil
  show ?case by (simp add: picks_def unlisted_def)
next
  case (Cons n names)
  show ?case
  proof (cases "map_of d (JStr n)")
    case None
    then have "JStr n \<notin> fst ` set d" by (simp add: map_of_eq_None_iff)
    then have "unlisted (n # names) d = unlisted names d"
      unfolding unlisted_def by (intro filter_cong) (auto simp: image_iff)
    moreover from None have "picks (n # names) d = picks names d"
      by (simp add: picks_def)
    moreover from Cons.prems
    have "pop_known names d known = (known @ picks names d, unlisted names d)"
      by (intro Cons.IH) auto
    ultimately show ?thesis using None by (simp add: dict_get_JStr)
  next
    case (Some grp)
    let ?d = "filter (\<lambda>kv. fst kv \<noteq> JStr n) d"
    have fresh: "key_norm (JStr n) \<notin> set (nkeys known)"
    proof
      assume "key_norm (JStr n) \<in> set (nkeys known)"
      then obtain kv where "kv \<in> set known" and "key_norm (fst kv) = JStr n"
        by (auto simp: nkeys_def)
      then have "kv \<in> set known" and "fst kv = JStr n" by simp_all
      then have "JStr n \<in> fst ` set known" by (metis imageI)
      with Cons.prems(3) show False by auto
    qed
    have known': "dict_set (JStr n) grp known = known @ [(JStr n, grp)]"
      by (rule dict_set_new [OF _ fresh]) simp
    from Cons.prems(1) have pop: "dict_pop (JStr n) d = ?d"
      by (rule dict_pop_JStr)
    from Cons.prems have n: "n \<notin> set names" by simp
    from Cons.prems n
    have "pop_known names ?d (known @ [(JStr n, grp)])
          = ((known @ [(JStr n, grp)]) @ picks names ?d, unlisted names ?d)"
      by (intro Cons.IH) (auto simp: distinct_map_filter)
    moreover have "unlisted names ?d = unlisted (n # names) d"
      unfolding unlisted_def by (auto intro: filter_cong)
    moreover from Some have "picks (n # names) d = (JStr n, grp) # picks names d"
      by (simp add: picks_def)
    ultimately show ?thesis
      using Some by (simp add: dict_get_JStr known' pop picks_filter_other [OF n])
  qed
qed

lemma filter_key_single:
  "distinct (map fst d) \<Longrightarrow>
   filter (\<lambda>kv. fst kv = k) d = (case map_of d k of None \<Rightarrow> [] | Some v \<Rightarrow> [(k, v)])"
proof (induction d)
  case Nil
  show ?case by simp
next
  case (Cons kv d)
  obtain k0 v0 where kv: "kv = (k0, v0)" by (cases kv)
  show ?case
  proof (cases "k0 = k")
    case True
    with Cons.prems kv have "k \<notin> fst ` set d" by auto
    then have "filter (\<lambda>kv. fst kv = k) d = []"
      by (auto simp: filter_empty_conv)
    with True kv show ?thesis by simp
  next
    case False
    with Cons kv show ?thesis by simp
  qed
qed

lemma mset_picks:
  assumes "distinct (map fst d)" and "distinct names"
  shows "mset (picks names d) = mset (filter (\<lambda>kv. fst kv \<in> JStr ` set names) d)"
  using assms(2)
proof (induction names)
  case Nil
  show ?case by (simp add: picks_def)
next
  case (Cons n names)
  then have n: "n \<notin> set names" and IH: "mset (picks names d)
      = mset (filter (\<lambda>kv. fst kv \<in> JStr ` set names) d)"
    by simp_all
  have "picks (n # names) d = filter (\<lambda>kv. fst kv = JStr n) d @ picks names d"
    by (simp add: picks_def filter_key_single [OF assms(1)])
  moreover from n have "mset (filter (\<lambda>kv. fst kv \<in> JStr ` set (n # names)) d)
      = mset (filter (\<lambda>kv. fst kv = JStr n) d)
        + mset (filter (\<lambda>kv. fst kv \<in> JStr ` set names) d)"
    by (induction d) auto
  ultimately show ?case by (simp add: IH)
qed

lemma mset_picks_unlisted:
  assumes "distinct (map fst d)" and "distinct names"
  shows "mset (picks names d) + mset (unlisted names d) = mset d"
  unfolding mset_picks [OF assms] unlisted_def by (simp flip: multiset_partition)

lemma distinct_ISSUER_ORDER: "distinct ISSUER_ORDER"
  by (simp add: ISSUER_ORDER_def)

lemma order_groups_Inr:
  assumes dist: "distinct (nkeys d)" and hash: "\<forall>k\<in>fst ` set d. hashable k"
    and res: "order_groups d = Inr g"
  shows "\<exists>items. sort_by item_lt (unlisted ISSUER_ORDER d) = Inr items
           \<and> g = picks ISSUER_ORDER d @ items"
    and "mset g = mset d"
proof -
  from dist have "distinct (map key_norm (map fst d))"
    by (simp add: nkeys_def comp_def)
  then have dfst: "distinct (map fst d)"
    using distinct_map [of key_norm "map fst d"] by blast
  have pop: "pop_known ISSUER_ORDER d [] = (picks ISSUER_ORDER d, unlisted ISSUER_ORDER d)"
    using pop_known_char [OF dfst distinct_ISSUER_ORDER, of "[]"] by simp
  with res obtain items where items: "sort_by item_lt (unlisted ISSUER_ORDER d) = Inr items"
    and g: "g = dict_update (picks ISSUER_ORDER d) (dict_update [] items)"
    by (auto simp: order_groups_def andthen_Inr_iff)
  from sort_by_mset [OF items] have mi: "mset items = mset (unlisted ISSUER_ORDER d)" .
  with mset_picks_unlisted [OF dfst distinct_ISSUER_ORDER]
  have all: "mset (picks ISSUER_ORDER d @ items) = mset d" by simp
  then have "mset (nkeys (picks ISSUER_ORDER d @ items)) = mset (nkeys d)"
    unfolding nkeys_def by (metis mset_map)
  with dist have dist': "distinct (nkeys (picks ISSUER_ORDER d @ items))"
    by (metis mset_eq_imp_distinct_iff)
  from all have "set (picks ISSUER_ORDER d @ items) = set d" by (metis set_mset_mset)
  with hash have hi: "\<forall>k\<in>fst ` set items. hashable k" by auto
  from dist' have "distinct (nkeys ([] @ items))" by simp
  from dict_update_append [OF hi this] have "dict_update [] items = items" by simp
  with dict_update_append [OF hi dist'] g have "g = picks ISSUER_ORDER d @ items" by simp
  with items all show "\<exists>items. sort_by item_lt (unlisted ISSUER_ORDER d) = Inr items
           \<and> g = picks ISSUER_ORDER d @ items" and "mset g = mset d"
    by auto
qed

lemma str_issuer_eq: "str_issuer b \<Longrightarrow> issuer_name b = Inr (JStr (issuer_str b))"
  by (auto simp: str_issuer_def issuer_str_def split: sum.splits json.splits)

lemma str_issuer_classified: "str_issuer b \<Longrightarrow> classified b \<and> the_issuer b = JStr (issuer_str b)"
  by (simp add: str_issuer_eq classified_def the_issuer_def)

lemma sort_groups_Inr:
  "sort_groups d = Inr d' \<Longrightarrow>
   list_all2 (\<lambda>p q. fst q = fst p
      \<and> list_sort_key_reverse issued_at_date (snd p) = Inr (snd q)) d d'"
proof (induction d arbitrary: d')
  case Nil
  then show ?case by simp
next
  case (Cons kv d)
  obtain k grp where kv: "kv = (k, grp)" by (cases kv)
  from Cons.prems kv obtain grp' rest where
    "list_sort_key_reverse issued_at_date grp = Inr grp'"
    "sort_groups d = Inr rest" "d' = (k, grp') # rest"
    by (auto simp: andthen_Inr_iff)
  with Cons.IH [of rest] kv show ?case by simp
qed

lemma sort_groups_keys: "sort_groups d = Inr d' \<Longrightarrow> map fst d' = map fst d"
proof -
  assume "sort_groups d = Inr d'"
  from sort_groups_Inr [OF this] show ?thesis
    by (induction rule: list_all2_induct) simp_all
qed

lemma sort_groups_mset:
  "sort_groups d = Inr d' \<Longrightarrow> mset (concat (map snd d')) = mset (concat (map snd d))"
proof -
  assume "sort_groups d = Inr d'"
  from sort_groups_Inr [OF this] show ?thesis
    by (induction rule: list_all2_induct) (auto dest: list_sort_key_reverse_mset)
qed

lemma sort_groups_mem:
  assumes "sort_groups d = Inr d'" and "(k, grp') \<in> set d'"
  shows "\<exists>grp. (k, grp) \<in> set d \<and> list_sort_key_reverse issued_at_date grp = Inr grp'"
proof -
  from sort_groups_Inr [OF assms(1)] assms(2) show ?thesis
  proof (induction rule: list_all2_induct)
    case Nil
    then show ?case by simp
  next
    case (Cons p d q d')
    then show ?case by (cases p; cases q) auto
  qed
qed

lemma sort_groups_total:
  assumes "\<forall>p\<in>set d. \<forall>b\<in>set (snd p). has_date_str b"
  shows "\<exists>d'. sort_groups d = Inr d'"
  using assms
proof (induction d)
  case Nil
  show ?case by simp
next
  case (Cons kv d)
  obtain k grp where kv: "kv = (k, grp)" by (cases kv)
  from Cons.prems kv have "\<And>b. b \<in> set grp \<Longrightarrow> issued_at_date b = Inr (JStr (date_str b))"
    by (simp add: has_date_str_eq)
  from list_sort_key_reverse_strings [of grp issued_at_date date_str, OF this]
  have "list_sort_key_reverse issued_at_date grp = Inr (rev (sort_key date_str (rev grp)))"
    by simp
  moreover from Cons obtain rest where "sort_groups d = Inr rest" by auto
  ultimately show ?case by (simp add: kv)
qed


lemma mset_concat_map:
  "mset (concat (map f xs)) = (\<Sum>x\<in>#mset xs. mset (f x))"
  by (induction xs) simp_all

lemma group_badges_Inr:
  assumes "group_badges (JArr bs) = Inr g"
  obtains d' where "\<forall>b\<in>set bs. classified b"
    and "sort_groups (raw_groups bs []) = Inr d'"
    and "order_groups d' = Inr g"
proof -
  from assms obtain d d' where "collect bs [] = Inr d" "sort_groups d = Inr d'"
    "order_groups d' = Inr g"
    by (auto simp: group_badges_def andthen_Inr_iff)
  with collect_Inr [of bs "[]" d] that show ?thesis by blast
qed

lemma raw_groups_hashable:
  assumes "\<forall>b\<in>set bs. classified b"
  shows "\<forall>k\<in>fst ` set (raw_groups bs []). hashable k"
proof
  fix k assume "k \<in> fst ` set (raw_groups bs [])"
  with raw_groups_keys [of bs "[]"] have "k \<in> the_issuer ` set bs" by auto
  with assms show "hashable k" by (auto simp: classified_issuer)
qed

lemma sorted_groups_facts:
  assumes cl: "\<forall>b\<in>set bs. classified b"
    and sg: "sort_groups (raw_groups bs []) = Inr d'"
  shows "distinct (nkeys d')" and "\<forall>k\<in>fst ` set d'. hashable k"
    and "mset (concat (map snd d')) = mset bs"
proof -
  from sort_groups_keys [OF sg] have keys: "map fst d' = map fst (raw_groups bs [])" .
  then have "map key_norm (map fst d') = map key_norm (map fst (raw_groups bs []))"
    by (simp only:)
  then have "nkeys d' = nkeys (raw_groups bs [])"
    by (simp add: nkeys_def comp_def)
  with raw_groups_distinct [OF cl, of "[]"] show "distinct (nkeys d')" by simp
  from keys have "set (map fst d') = set (map fst (raw_groups bs []))" by simp
  with raw_groups_hashable [OF cl] show "\<forall>k\<in>fst ` set d'. hashable k" by simp
  from sort_groups_mset [OF sg] raw_groups_mset [of bs "[]"]
  show "mset (concat (map snd d')) = mset bs" by simp
qed

lemma sorted_groups_group:
  assumes cl: "\<forall>b\<in>set bs. classified b"
    and sg: "sort_groups (raw_groups bs []) = Inr d'"
    and mem: "(k, grp) \<in> set d'"
  shows "hashable k"
    and "filter (\<lambda>b. py_eq k (the_issuer b)) bs \<noteq> []"
    and "list_sort_key_reverse issued_at_date (filter (\<lambda>b. py_eq k (the_issuer b)) bs)
         = Inr grp"
proof -
  from sorted_groups_facts(2) [OF cl sg] mem show hk: "hashable k" by force
  from sort_groups_mem [OF sg mem] obtain grp0 where
    grp0: "(k, grp0) \<in> set (raw_groups bs [])"
    and sorted: "list_sort_key_reverse issued_at_date grp0 = Inr grp"
    by blast
  from raw_groups_distinct [OF cl, of "[]"] have "distinct (nkeys (raw_groups bs []))" by simp
  from dict_get_mem [OF hk this grp0] have "dict_get k (raw_groups bs []) = Some grp0" by simp
  with raw_groups_get [OF cl hk, of "[]"]
  have "filter (\<lambda>b. key_norm (the_issuer b) = key_norm k) bs \<noteq> []"
    and "grp0 = filter (\<lambda>b. key_norm (the_issuer b) = key_norm k) bs"
    by (auto split: if_splits)
  moreover from hk have "(\<lambda>b. key_norm (the_issuer b) = key_norm k) = (\<lambda>b. py_eq k (the_issuer b))"
    by (auto simp: py_eq_key_norm)
  ultimately show "filter (\<lambda>b. py_eq k (the_issuer b)) bs \<noteq> []"
    and "list_sort_key_reverse issued_at_date (filter (\<lambda>b. py_eq k (the_issuer b)) bs)
         = Inr grp"
    using sorted by simp_all
qed

lemma group_badges_mset:
  assumes "group_badges (JArr bs) = Inr g"
  shows "mset (concat (map snd g)) = mset bs"
proof -
  from assms obtain d' where cl: "\<forall>b\<in>set bs. classified b"
    and sg: "sort_groups (raw_groups bs []) = Inr d'" and og: "order_groups d' = Inr g"
    by (rule group_badges_Inr)
  note f = sorted_groups_facts [OF cl sg]
  from order_groups_Inr(2) [OF f(1) f(2) og] have "mset g = mset d'" .
  then have "mset (concat (map snd g)) = mset (concat (map snd d'))"
    by (simp add: mset_concat_map)
  with f(3) show ?thesis by simp
qed

lemma group_badges_group:
  assumes "group_badges (JArr bs) = Inr g" and "(k, grp) \<in> set g"
  shows "hashable k"
    and "filter (\<lambda>b. py_eq k (the_issuer b)) bs \<noteq> []"
    and "list_sort_key_reverse issued_at_date (filter (\<lambda>b. py_eq k (the_issuer b)) bs)
         = Inr grp"
proof -
  from assms(1) obtain d' where cl: "\<forall>b\<in>set bs. classified b"
    and sg: "sort_groups (raw_groups bs []) = Inr d'" and og: "order_groups d' = Inr g"
    by (rule group_badges_Inr)
  note f = sorted_groups_facts [OF cl sg]
  from order_groups_Inr(2) [OF f(1) f(2) og] have "set g = set d'" by (metis set_mset_mset)
  with assms(2) have mem: "(k, grp) \<in> set d'" by simp
  from sorted_groups_group [OF cl sg mem]
  show "hashable k"
    and "filter (\<lambda>b. py_eq k (the_issuer b)) bs \<noteq> []"
    and "list_sort_key_reverse issued_at_date (filter (\<lambda>b. py_eq k (the_issuer b)) bs)
         = Inr grp"
    by simp_all
qed

lemma group_badges_distinct:
  assumes "group_badges (JArr bs) = Inr g"
  shows "distinct (nkeys g)"
proof -
  from assms obtain d' where cl: "\<forall>b\<in>set bs. classified b"
    and sg: "sort_groups (raw_groups bs []) = Inr d'" and og: "order_groups d' = Inr g"
    by (rule group_badges_Inr)
  note f = sorted_groups_facts [OF cl sg]
  from order_groups_Inr(2) [OF f(1) f(2) og] have "mset (nkeys g) = mset (nkeys d')"
    by (simp add: nkeys_def)
  with f(1) show ?thesis by (metis mset_eq_imp_distinct_iff)
qed

lemma fst_in_keys: "(k, v) \<in> set d \<Longrightarrow> k \<in> fst ` set d"
  by force

lemma keys_unlisted: "fst ` set (unlisted names d) = fst ` set d - JStr ` set names"
  by (induction d) (auto simp: unlisted_def)

lemma item_lt_strings:
  assumes "fst x = JStr a" and "fst y = JStr b" and "a \<noteq> b"
  shows "item_lt y x = Inr (key_str y < key_str x)"
  using assms by (simp add: item_lt_def key_str_def)

lemma sort_items_strings:
  fixes U :: groups
  assumes dist: "distinct (map fst U)" and strs: "\<forall>k\<in>fst ` set U. \<exists>s. k = JStr s"
  shows "sort_by item_lt U = Inr (sort_key key_str U)"
proof (rule sort_by_key)
  show "sorted_wrt (\<lambda>x y. item_lt y x = Inr (key_str y < key_str x)) U"
    unfolding sorted_wrt_iff_nth_less
  proof (intro allI impI)
    fix i j assume ij: "i < j" "j < length U"
    with strs obtain a b where a: "fst (U ! i) = JStr a" and b: "fst (U ! j) = JStr b"
      by (metis imageI nth_mem order_less_trans)
    from ij have "i < length (map fst U)" and "j < length (map fst U)" by simp_all
    from nth_eq_iff_index_eq [OF dist this] ij have "fst (U ! i) \<noteq> fst (U ! j)" by simp
    with a b have "a \<noteq> b" by auto
    from item_lt_strings [OF a b this]
    show "item_lt (U ! j) (U ! i) = Inr (key_str (U ! j) < key_str (U ! i))" .
  qed
qed

lemma map_fst_picks:
  "map fst (picks names d) = map JStr (filter (\<lambda>n. JStr n \<in> fst ` set d) names)"
proof (induction names)
  case Nil
  show ?case by (simp add: picks_def)
next
  case (Cons n names)
  have "picks (n # names) d
        = (case map_of d (JStr n) of None \<Rightarrow> [] | Some grp \<Rightarrow> [(JStr n, grp)]) @ picks names d"
    by (simp add: picks_def)
  with Cons show ?case
  proof (cases "map_of d (JStr n)")
    case None
    then have "JStr n \<notin> fst ` set d" by (simp add: map_of_eq_None_iff)
    with None Cons show ?thesis by (simp add: picks_def)
  next
    case (Some grp)
    then have "(JStr n, grp) \<in> set d" by (rule map_of_SomeD)
    then have "JStr n \<in> fst ` set d" by (rule fst_in_keys)
    with Some Cons show ?thesis by (simp add: picks_def)
  qed
qed

lemma raw_groups_string_keys:
  assumes "\<forall>b\<in>set bs. str_issuer b"
  shows "fst ` set (raw_groups bs []) = JStr ` issuer_str ` set bs"
proof
  from raw_groups_keys [of bs "[]"] assms
  show "fst ` set (raw_groups bs []) \<subseteq> JStr ` issuer_str ` set bs"
    by (auto simp: str_issuer_classified)
next
  from assms have cl: "\<forall>b\<in>set bs. classified b" by (simp add: str_issuer_classified)
  show "JStr ` issuer_str ` set bs \<subseteq> fst ` set (raw_groups bs [])"
  proof
    fix k assume "k \<in> JStr ` issuer_str ` set bs"
    then obtain b where b: "b \<in> set bs" "k = JStr (issuer_str b)" by auto
    with assms have "key_norm (the_issuer b) = key_norm k" by (simp add: str_issuer_classified)
    with b(1) have "filter (\<lambda>b. key_norm (the_issuer b) = key_norm k) bs \<noteq> []"
      by (auto simp: filter_empty_conv)
    with raw_groups_get [OF cl, of k "[]"] b(2)
    obtain v where "dict_get k (raw_groups bs []) = Some v" by auto
    from dict_get_Some_mem [OF _ this] b(2) show "k \<in> fst ` set (raw_groups bs [])"
      by (auto simp: image_iff) (metis fst_conv)
  qed
qed

lemma string_keys_JStr:
  fixes U :: groups
  assumes "\<forall>k\<in>fst ` set U. \<exists>s. k = JStr s"
  shows "map fst U = map JStr (map key_str U)"
  using assms by (induction U) (auto simp: key_str_def)

lemma group_badges_string_order:
  assumes gb: "group_badges (JArr bs) = Inr g" and strs: "\<forall>b\<in>set bs. str_issuer b"
  shows "map fst g =
         map JStr (filter (\<lambda>n. n \<in> set (map issuer_str bs)) ISSUER_ORDER
                   @ sort (remdups (filter (\<lambda>n. n \<notin> set ISSUER_ORDER) (map issuer_str bs))))"
proof -
  from gb obtain d' where cl: "\<forall>b\<in>set bs. classified b"
    and sg: "sort_groups (raw_groups bs []) = Inr d'" and og: "order_groups d' = Inr g"
    by (rule group_badges_Inr)
  note f = sorted_groups_facts [OF cl sg]
  from order_groups_Inr(1) [OF f(1) f(2) og] obtain items where
    items: "sort_by item_lt (unlisted ISSUER_ORDER d') = Inr items"
    and g: "g = picks ISSUER_ORDER d' @ items"
    by blast
  let ?U = "unlisted ISSUER_ORDER d'"
  from sort_groups_keys [OF sg] have "set (map fst d') = set (map fst (raw_groups bs []))"
    by simp
  with raw_groups_string_keys [OF strs]
  have keys: "fst ` set d' = JStr ` issuer_str ` set bs" by simp
  from f(1) have "distinct (map key_norm (map fst d'))" by (simp add: nkeys_def comp_def)
  then have dfst: "distinct (map fst d')"
    using distinct_map [of key_norm "map fst d'"] by blast
  then have dU: "distinct (map fst ?U)"
    by (simp add: unlisted_def distinct_map_filter)
  have "fst ` set ?U \<subseteq> fst ` set d'"
    by (intro image_mono) (simp add: unlisted_def)
  with keys have sU: "\<forall>k\<in>fst ` set ?U. \<exists>s. k = JStr s"
    by auto
  from sort_items_strings [OF dU sU] items have it: "items = sort_key key_str ?U" by simp
  have "\<forall>k\<in>fst ` set (sort_key key_str ?U). \<exists>s. k = JStr s"
    using sU by simp
  from string_keys_JStr [OF this]
  have "map fst items = map JStr (map key_str (sort_key key_str ?U))" by (simp add: it)
  moreover have "map key_str (sort_key key_str ?U)
      = sort (remdups (filter (\<lambda>n. n \<notin> set ISSUER_ORDER) (map issuer_str bs)))"
  proof (rule sorted_distinct_set_unique)
    show "sorted (map key_str (sort_key key_str ?U))" by simp
    from dU string_keys_JStr [OF sU] have "distinct (map JStr (map key_str ?U))" by simp
    then have "distinct (map key_str ?U)"
      using distinct_map [of JStr "map key_str ?U"] by blast
    then have "distinct (map key_str (sort_key key_str ?U))"
      by (metis distinct_map distinct_sort set_sort)
    then show "distinct (map key_str (sort_key key_str ?U))" .
    show "sorted (sort (remdups (filter (\<lambda>n. n \<notin> set ISSUER_ORDER) (map issuer_str bs))))"
      by simp
    show "distinct (sort (remdups (filter (\<lambda>n. n \<notin> set ISSUER_ORDER) (map issuer_str bs))))"
      by simp
    have "JStr ` set (map key_str ?U) = set (map fst ?U)"
      using string_keys_JStr [OF sU] by (metis list.set_map)
    also have "\<dots> = JStr ` issuer_str ` set bs - JStr ` set ISSUER_ORDER"
      using keys by (simp add: keys_unlisted)
    also have "\<dots> = JStr ` (issuer_str ` set bs - set ISSUER_ORDER)"
      by (simp add: image_set_diff inj_on_def)
    finally have "set (map key_str ?U) = issuer_str ` set bs - set ISSUER_ORDER"
      by (simp add: inj_image_eq_iff inj_on_def)
    then show "set (map key_str (sort_key key_str ?U))
        = set (sort (remdups (filter (\<lambda>n. n \<notin> set ISSUER_ORDER) (map issuer_str bs))))"
      by auto
  qed
  moreover from keys have "map fst (picks ISSUER_ORDER d')
      = map JStr (filter (\<lambda>n. n \<in> set (map issuer_str bs)) ISSUER_ORDER)"
    unfolding map_fst_picks by (intro arg_cong [where f = "map JStr"] filter_cong) auto
  ultimately show ?thesis by (simp add: g)
qed

lemma group_badges_total:
  assumes "\<forall>b\<in>set bs. str_issuer b \<and> has_date_str b"
  shows "\<exists>g. group_badges (JArr bs) = Inr g"
proof -
  from assms have cl: "\<forall>b\<in>set bs. classified b" by (simp add: str_issuer_classified)
  from collect_total [OF cl] have co: "collect bs [] = Inr (raw_groups bs [])" .
  from raw_groups_mset [of bs "[]"] have "set (concat (map snd (raw_groups bs []))) = set bs"
    by (metis add_0 concat.simps(1) list.simps(8) mset.simps(1) set_mset_mset)
  with assms have "\<forall>p\<in>set (raw_groups bs []). \<forall>b\<in>set (snd p). has_date_str b"
    by auto
  from sort_groups_total [OF this] obtain d' where sg: "sort_groups (raw_groups bs []) = Inr d'"
    by blast
  note f = sorted_groups_facts [OF cl sg]
  from f(1) have "distinct (map key_norm (map fst d'))" by (simp add: nkeys_def comp_def)
  then have dfst: "distinct (map fst d')"
    using distinct_map [of key_norm "map fst d'"] by blast
  then have dU: "distinct (map fst (unlisted ISSUER_ORDER d'))"
    by (simp add: unlisted_def distinct_map_filter)
  from sort_groups_keys [OF sg] have "set (map fst d') = set (map fst (raw_groups bs []))"
    by simp
  with raw_groups_string_keys [of bs] assms
  have keys: "fst ` set d' = JStr ` issuer_str ` set bs" by simp
  moreover have "fst ` set (unlisted ISSUER_ORDER d') \<subseteq> fst ` set d'"
    by (intro image_mono) (simp add: unlisted_def)
  ultimately have sU: "\<forall>k\<in>fst ` set (unlisted ISSUER_ORDER d'). \<exists>s. k = JStr s"
    by auto
  have pop: "pop_known ISSUER_ORDER d' [] = (picks ISSUER_ORDER d', unlisted ISSUER_ORDER d')"
    using pop_known_char [OF dfst distinct_ISSUER_ORDER, of "[]"] by simp
  from sort_items_strings [OF dU sU] pop have "\<exists>g. order_groups d' = Inr g"
    by (simp add: order_groups_def)
  with co sg show ?thesis by (auto simp: group_badges_def)
qed

lemma sample_badge_issuer [simp]: "issuer_name (sample_badge i n d) = Inr (JStr n)"
  by (simp add: sample_badge_def issuer_name_def issuer_lookup_def py_index_def)

lemma sample_badge_date [simp]: "issued_at_date (sample_badge i n d) = Inr (JStr d)"
  by (simp add: sample_badge_def issued_at_date_def)

lemma sample_badge_eq [simp]:
  "(sample_badge i n d = sample_badge i' n' d') = (i = i' \<and> n = n' \<and> d = d')"
  by (auto simp: sample_badge_def)

lemma sample_badges_shape:
  "list_all (\<lambda>b. str_issuer b \<and> has_date_str b) sample_badges"
  by (simp add: sample_badges_def str_issuer_def has_date_str_def)

lemma sample_grouped_eq: "group_badges (JArr sample_badges) = Inr sample_grouped"
  by (simp add: group_badges_def sample_badges_def sample_grouped_def list_sort_key_reverse_def
      order_groups_def ISSUER_ORDER_def item_lt_def dict_update_def)

text \<open>
  Claim C4. Whenever \<open>group_badges\<close> returns a grouped collection for a list of
  badges, the groups together hold every badge of the input exactly once, every badge
  stands in a group whose key equals (for Python) the issuer name derived from it, and
  no two groups have equal keys. It does return one when the issuer name and the date
  of every badge are strings.
\<close>

theorem group_badges_partition:
  "(\<forall>g. group_badges (JArr bs) = Inr g \<longrightarrow>
      mset (concat (map snd g)) = mset bs
      \<and> (\<forall>(k, grp)\<in>set g. \<forall>b\<in>set grp. \<exists>v. issuer_name b = Inr v \<and> py_eq k v)
      \<and> (\<forall>i<length g. \<forall>j<length g. i \<noteq> j \<longrightarrow> \<not> py_eq (fst (g ! i)) (fst (g ! j))))
   \<and> ((\<forall>b\<in>set bs. str_issuer b \<and> has_date_str b) \<longrightarrow> (\<exists>g. group_badges (JArr bs) = Inr g))"
proof -
  have returned: "mset (concat (map snd g)) = mset bs
      \<and> (\<forall>(k, grp)\<in>set g. \<forall>b\<in>set grp. \<exists>v. issuer_name b = Inr v \<and> py_eq k v)
      \<and> (\<forall>i<length g. \<forall>j<length g. i \<noteq> j \<longrightarrow> \<not> py_eq (fst (g ! i)) (fst (g ! j)))"
    if gb: "group_badges (JArr bs) = Inr g" for g
  proof (intro conjI)
  show "mset (concat (map snd g)) = mset bs"
    by (rule group_badges_mset [OF gb])
  show "\<forall>(k, grp)\<in>set g. \<forall>b\<in>set grp. \<exists>v. issuer_name b = Inr v \<and> py_eq k v"
  proof (intro ballI, clarify)
    fix k grp b assume mem: "(k, grp) \<in> set g" and b: "b \<in> set grp"
    from group_badges_group(3) [OF gb mem]
    have "mset grp = mset (filter (\<lambda>b. py_eq k (the_issuer b)) bs)"
      by (rule list_sort_key_reverse_mset)
    then have "set grp = set (filter (\<lambda>b. py_eq k (the_issuer b)) bs)"
      by (metis set_mset_mset)
    with b have "b \<in> set bs" and eq: "py_eq k (the_issuer b)" by simp_all
    moreover from gb obtain d' where "\<forall>b\<in>set bs. classified b"
      by (rule group_badges_Inr)
    ultimately have "issuer_name b = Inr (the_issuer b)"
      by (simp add: classified_issuer)
    with eq show "\<exists>v. issuer_name b = Inr v \<and> py_eq k v" by blast
  qed
  show "\<forall>i<length g. \<forall>j<length g. i \<noteq> j \<longrightarrow> \<not> py_eq (fst (g ! i)) (fst (g ! j))"
  proof (intro allI impI)
    fix i j assume ij: "i < length g" "j < length g" "i \<noteq> j"
    from ij have "(fst (g ! i), snd (g ! i)) \<in> set g" by simp
    from group_badges_group(1) [OF gb this] have "hashable (fst (g ! i))" .
    then have "py_eq (fst (g ! i)) (fst (g ! j))
        = (key_norm (fst (g ! i)) = key_norm (fst (g ! j)))"
      by (simp add: py_eq_key_norm)
    moreover from ij have "i < length (nkeys g)" "j < length (nkeys g)"
      by (simp_all add: nkeys_def)
    from nth_eq_iff_index_eq [OF group_badges_distinct [OF gb] this] ij
    have "key_norm (fst (g ! i)) \<noteq> key_norm (fst (g ! j))"
      by (simp add: nkeys_def)
    ultimately show "\<not> py_eq (fst (g ! i)) (fst (g ! j))" by simp
  qed
  qed
  have "\<exists>g. group_badges (JArr bs) = Inr g" if "\<forall>b\<in>set bs. str_issuer b \<and> has_date_str b"
    using that by (rule group_badges_total)
  with returned show ?thesis by blast
qed

theorem group_badges_partition_witness:
  "list_all (\<lambda>b. str_issuer b \<and> has_date_str b) sample_badges
   \<and> group_badges (JArr sample_badges) = Inr sample_grouped
   \<and> mset (concat (map snd sample_grouped)) = mset sample_badges"
proof -
  from group_badges_partition [of sample_badges] sample_grouped_eq
  have "mset (concat (map snd sample_grouped)) = mset sample_badges" by blast
  with sample_badges_shape sample_grouped_eq show ?thesis by blast
qed

text \<open>
  Claim C5. In a grouped collection that \<open>group_badges\<close> returns, a group whose
  badges have string dates (a missing date counts as the empty string) is the stable
  descending sort, by date, of the input badges of that issuer: every badge has a date
  at least that of each later one, in particular of the next one, and the badges of one
  date stand in the order of the input.
\<close>

theorem group_sorted_by_date:
  assumes "group_badges (JArr bs) = Inr g"
    and "(k, grp) \<in> set g"
    and "\<forall>b\<in>set grp. has_date_str b"
  shows "grp = rev (sort_key date_str (rev (filter (\<lambda>b. py_eq k (the_issuer b)) bs)))
         \<and> sorted_wrt (\<lambda>a b. date_str b \<le> date_str a) grp
         \<and> (\<forall>i. Suc i < length grp \<longrightarrow> date_str (grp ! Suc i) \<le> date_str (grp ! i))
         \<and> (\<forall>d. filter (\<lambda>b. date_str b = d) grp
                = filter (\<lambda>b. date_str b = d) (filter (\<lambda>b. py_eq k (the_issuer b)) bs))"
proof -
  let ?F = "filter (\<lambda>b. py_eq k (the_issuer b)) bs"
  let ?S = "sort_key date_str (rev ?F)"
  from group_badges_group(3) [OF assms(1,2)]
  have sorted: "list_sort_key_reverse issued_at_date ?F = Inr grp" .
  from list_sort_key_reverse_mset [OF sorted] have same: "set ?F = set grp"
    by (metis set_mset_mset)
  have "issued_at_date b = Inr (JStr (date_str b))" if "b \<in> set ?F" for b
  proof -
    from that same have "b \<in> set grp" by (simp only:)
    with assms(3) show ?thesis by (simp add: has_date_str_eq)
  qed
  from list_sort_key_reverse_strings [of ?F issued_at_date date_str, OF this] sorted
  have grp: "grp = rev ?S" by simp
  have "sorted (map date_str ?S)" by simp
  then have "sorted_wrt (\<lambda>a b. date_str a \<le> date_str b) ?S"
    by (simp only: sorted_wrt_map)
  then have desc: "sorted_wrt (\<lambda>a b. date_str b \<le> date_str a) grp"
    by (simp add: grp sorted_wrt_rev)
  then have adj: "\<forall>i. Suc i < length grp \<longrightarrow> date_str (grp ! Suc i) \<le> date_str (grp ! i)"
    by (simp add: sorted_wrt_iff_nth_less)
  have stable: "\<forall>d. filter (\<lambda>b. date_str b = d) grp = filter (\<lambda>b. date_str b = d) ?F"
  proof
    fix d
    have "filter (\<lambda>b. date_str b = d) grp = rev (filter (\<lambda>b. date_str b = d) ?S)"
      by (simp add: grp rev_filter)
    also have "\<dots> = rev (filter (\<lambda>b. date_str b = d) (rev ?F))"
      by (simp only: sort_key_stable)
    also have "\<dots> = filter (\<lambda>b. date_str b = d) ?F"
      by (simp only: rev_filter rev_rev_ident)
    finally show "filter (\<lambda>b. date_str b = d) grp = filter (\<lambda>b. date_str b = d) ?F" .
  qed
  from grp desc adj stable show ?thesis by blast
qed

theorem group_sorted_by_date_witness:
  "group_badges (JArr sample_badges) = Inr sample_grouped
   \<and> (JStr ''IBM'', snd (hd sample_grouped)) \<in> set sample_grouped
   \<and> list_all has_date_str (snd (hd sample_grouped))
   \<and> sorted_wrt (\<lambda>a b. date_str b \<le> date_str a) (snd (hd sample_grouped))
   \<and> filter (\<lambda>b. date_str b = ''2020-01-01'') (snd (hd sample_grouped))
       = [sample_badge ''1'' ''IBM'' ''2020-01-01'', sample_badge ''4'' ''IBM'' ''2020-01-01'']"
proof -
  have mem: "(JStr ''IBM'', snd (hd sample_grouped)) \<in> set sample_grouped"
    by (simp add: sample_grouped_def)
  have dates: "list_all has_date_str (snd (hd sample_grouped))"
    by (simp add: sample_grouped_def has_date_str_def)
  then have "\<forall>b\<in>set (snd (hd sample_grouped)). has_date_str b"
    by (simp add: list_all_iff)
  from group_sorted_by_date [OF sample_grouped_eq mem this]
  have "sorted_wrt (\<lambda>a b. date_str b \<le> date_str a) (snd (hd sample_grouped))"
    and "filter (\<lambda>b. date_str b = ''2020-01-01'') (snd (hd sample_grouped))
         = filter (\<lambda>b. date_str b = ''2020-01-01'')
             (filter (\<lambda>b. py_eq (JStr ''IBM'') (the_issuer b)) sample_badges)"
    by blast+
  moreover have "filter (\<lambda>b. date_str b = ''2020-01-01'')
             (filter (\<lambda>b. py_eq (JStr ''IBM'') (the_issuer b)) sample_badges)
       = [sample_badge ''1'' ''IBM'' ''2020-01-01'', sample_badge ''4'' ''IBM'' ''2020-01-01'']"
    by (simp add: sample_badges_def date_str_def the_issuer_def)
  ultimately show ?thesis using sample_grouped_eq mem dates by simp
qed

text \<open>
  Claim C6. When the issuer names are strings, the keys of the grouped collection are,
  in this order: the names of \<open>ISSUER_ORDER\<close> that some badge has, in the order of
  that list, and then the other issuer names in ascending order; and no group is empty,
  so a listed issuer without a badge has no group.
\<close>

theorem group_order:
  assumes "group_badges (JArr bs) = Inr g" and "\<forall>b\<in>set bs. str_issuer b"
  shows "map fst g =
           map JStr (filter (\<lambda>n. n \<in> set (map issuer_str bs)) ISSUER_ORDER
                     @ sort (remdups (filter (\<lambda>n. n \<notin> set ISSUER_ORDER) (map issuer_str bs))))
         \<and> (\<forall>(k, grp)\<in>set g. grp \<noteq> [])"
proof
  show "map fst g =
           map JStr (filter (\<lambda>n. n \<in> set (map issuer_str bs)) ISSUER_ORDER
                     @ sort (remdups (filter (\<lambda>n. n \<notin> set ISSUER_ORDER) (map issuer_str bs))))"
    by (rule group_badges_string_order [OF assms])
  show "\<forall>(k, grp)\<in>set g. grp \<noteq> []"
  proof (intro ballI, clarify)
    fix k assume mem: "(k, []) \<in> set g"
    from group_badges_group(3) [OF assms(1) mem]
    have "mset [] = mset (filter (\<lambda>b. py_eq k (the_issuer b)) bs)"
      by (rule list_sort_key_reverse_mset)
    with group_badges_group(2) [OF assms(1) mem] show False by simp
  qed
qed

lemma unordered_grouped:
  "group_badges (JArr unordered_badges) =
     Inr [(JStr ''IBM'', [sample_badge ''3'' ''IBM'' ''2022-03-03'']),
          (JStr ''Isovalent'', [sample_badge ''1'' ''Isovalent'' ''2020-01-01'']),
          (JStr ''Acme'', [sample_badge ''4'' ''Acme'' ''2019-09-09'']),
          (JStr ''Unknown Co'', [sample_badge ''2'' ''Unknown Co'' ''2021-05-05''])]"
  by (simp add: group_badges_def unordered_badges_def list_sort_key_reverse_def
      order_groups_def ISSUER_ORDER_def item_lt_def dict_update_def)

theorem group_order_witness:
  "group_badges (JArr unordered_badges) =
     Inr [(JStr ''IBM'', [sample_badge ''3'' ''IBM'' ''2022-03-03'']),
          (JStr ''Isovalent'', [sample_badge ''1'' ''Isovalent'' ''2020-01-01'']),
          (JStr ''Acme'', [sample_badge ''4'' ''Acme'' ''2019-09-09'']),
          (JStr ''Unknown Co'', [sample_badge ''2'' ''Unknown Co'' ''2021-05-05''])]
   \<and> list_all str_issuer unordered_badges
   \<and> map JStr (filter (\<lambda>n. n \<in> set (map issuer_str unordered_badges)) ISSUER_ORDER
               @ sort (remdups (filter (\<lambda>n. n \<notin> set ISSUER_ORDER)
                                  (map issuer_str unordered_badges))))
       = [JStr ''IBM'', JStr ''Isovalent'', JStr ''Acme'', JStr ''Unknown Co'']"
proof -
  have strs: "list_all str_issuer unordered_badges"
    by (simp add: unordered_badges_def str_issuer_def)
  then have "\<forall>b\<in>set unordered_badges. str_issuer b" by (simp add: list_all_iff)
  from group_order [OF unordered_grouped this]
  have "map JStr (filter (\<lambda>n. n \<in> set (map issuer_str unordered_badges)) ISSUER_ORDER
               @ sort (remdups (filter (\<lambda>n. n \<notin> set ISSUER_ORDER)
                                  (map issuer_str unordered_badges))))
       = [JStr ''IBM'', JStr ''Isovalent'', JStr ''Acme'', JStr ''Unknown Co'']"
    by simp
  with unordered_grouped strs show ?thesis by blast
qed

subsection \<open>The renderer\<close>

lemma render_loop_blocks:
  "render_loop str_of grouped lines =
     andthen (map_result (group_block str_of) grouped) (\<lambda>blocks. Inr (lines @ concat blocks))"
proof (induction grouped arbitrary: lines)
  case Nil
  show ?case by simp
next
  case (Cons item grouped)
  obtain issuer badges where item: "item = (issuer, badges)" by (cases item)
  have block: "group_block str_of (issuer, badges) =
      andthen (map_result (badge_html str_of) badges)
        (\<lambda>htmls. Inr [''**'' @ format_value str_of issuer @ ''**'', [], join '' '' htmls, []])"
    by (simp add: group_block_def)
  show ?case
  proof (cases "map_result (badge_html str_of) badges")
    case (Inl e)
    then show ?thesis by (simp add: item block)
  next
    case (Inr htmls)
    show ?thesis
    proof (cases "map_result (group_block str_of) grouped")
      case (Inl e)
      with Inr show ?thesis by (simp add: item block Cons.IH)
    next
      case blocks: (Inr blocks)
      with Inr show ?thesis by (simp add: item block Cons.IH)
    qed
  qed
qed

lemma render_section_blocks:
  "render_section str_of grouped =
     andthen (map_result (group_block str_of) grouped)
       (\<lambda>blocks. Inr (join [CHR 0x0A] (''### Certificates & Badges'' # [] # concat blocks)))"
  by (cases "map_result (group_block str_of) grouped")
    (simp_all add: render_section_def render_loop_blocks)

lemma badge_html_fields:
  assumes "field ''id'' b = Some i" and "field ''badge_template'' b = Some t"
    and "field ''name'' t = Some n" and "field ''image_url'' t = Some u"
  shows \<open>badge_html str_of b =
           Inr (''<a href="https://www.credly.com/badges/'' @ format_value str_of i
                @ ''/public_url"><img height="90" width="90" src="'' @ format_value str_of u
                @ ''" alt="'' @ format_value str_of n @ ''"/></a>'')\<close>
proof -
  from assms(1) have "is_obj b" by (cases b) simp_all
  moreover from assms(3) have "is_obj t" by (cases t) simp_all
  ultimately show ?thesis
    using assms by (simp add: badge_html_def subscript_str_cases)
qed

text \<open>
  Claim C9, as the code has it. The fragment is the lines joined by newlines, and the
  lines are: the heading, an empty line, and for each group in order the issuer in
  bold, an empty line, the markup of the group's badges joined by single spaces, and an
  empty line. The markup of a badge is an anchor to the public URL of its \<open>id\<close> around
  a 90 by 90 image with the template's \<open>image_url\<close> as source and its \<open>name\<close> as
  alternate text. A badge without these fields makes the renderer raise instead.
\<close>

theorem render_section_layout:
  \<open>render_section str_of grouped =
      andthen (map_result (group_block str_of) grouped)
        (\<lambda>blocks. Inr (join [CHR 0x0A] (''### Certificates & Badges'' # [] # concat blocks)))
    \<and> (field ''id'' b = Some i \<and> field ''badge_template'' b = Some t
       \<and> field ''name'' t = Some n \<and> field ''image_url'' t = Some u \<longrightarrow>
       badge_html str_of b =
         Inr (''<a href="https://www.credly.com/badges/'' @ format_value str_of i
              @ ''/public_url"><img height="90" width="90" src="'' @ format_value str_of u
              @ ''" alt="'' @ format_value str_of n @ ''"/></a>''))\<close>
  using render_section_blocks badge_html_fields by blast

theorem render_section_layout_witness:
  \<open>field ''id'' (sample_badge ''7'' ''IBM'' ''2020-01-01'') = Some (JStr ''7'')
    \<and> badge_html sample_str_of (sample_badge ''7'' ''IBM'' ''2020-01-01'') =
        Inr (''<a href="https://www.credly.com/badges/7/public_url">''
             @ ''<img height="90" width="90" src="https://images.example/7" alt="Badge 7"/></a>'')
    \<and> render_section sample_str_of ibm_group =
        Inr (''### Certificates & Badges'' @ [CHR 0x0A, CHR 0x0A] @ ''**IBM**'' @ [CHR 0x0A, CHR 0x0A]
             @ ''<a href="https://www.credly.com/badges/7/public_url">''
             @ ''<img height="90" width="90" src="https://images.example/7" alt="Badge 7"/></a>''
             @ [CHR 0x0A])\<close>
proof -
  let ?b = "sample_badge ''7'' ''IBM'' ''2020-01-01''"
  let ?t = "JObj [(''name'', JStr ''Badge 7''), (''image_url'', JStr ''https://images.example/7''),
                  (''issuer'', JObj [(''entities'',
                       JArr [JObj [(''entity'', JObj [(''name'', JStr ''IBM'')])]])])]"
  have f: "field ''id'' ?b = Some (JStr ''7'')" "field ''badge_template'' ?b = Some ?t"
    "field ''name'' ?t = Some (JStr ''Badge 7'')"
    "field ''image_url'' ?t = Some (JStr ''https://images.example/7'')"
    by (simp_all add: sample_badge_def)
  from render_section_layout [of sample_str_of ibm_group ?b "JStr ''7''" ?t "JStr ''Badge 7''"
      "JStr ''https://images.example/7''"] f
  have html: \<open>badge_html sample_str_of ?b =
        Inr (''<a href="https://www.credly.com/badges/7/public_url">''
             @ ''<img height="90" width="90" src="https://images.example/7" alt="Badge 7"/></a>'')\<close>
    and sec: "render_section sample_str_of ibm_group =
      andthen (map_result (group_block sample_str_of) ibm_group)
        (\<lambda>blocks. Inr (join [CHR 0x0A] (''### Certificates & Badges'' # [] # concat blocks)))"
    by (simp_all add: format_value_def)
  from html have "map_result (group_block sample_str_of) ibm_group = Inr [[''**IBM**'', [],
     ''<a href='' @ [CHR 0x22] @ ''https://www.credly.com/badges/7/public_url'' @ [CHR 0x22] @ ''>''
     @ ''<img height='' @ [CHR 0x22] @ ''90'' @ [CHR 0x22] @ '' width='' @ [CHR 0x22] @ ''90''
     @ [CHR 0x22] @ '' src='' @ [CHR 0x22] @ ''https://images.example/7'' @ [CHR 0x22]
     @ '' alt='' @ [CHR 0x22] @ ''Badge 7'' @ [CHR 0x22] @ ''/></a>'', []]]"
    by (simp add: ibm_group_def group_block_def format_value_def)
  with sec html f(1) show ?thesis by simp
qed

text \<open>
  Claim C9 as stated leaves out the empty line that follows the heading: with the
  heading directly followed by the first group the fragment would be a line shorter
  than the one the code produces.
\<close>

theorem render_section_heading_counterexample:
  \<open>render_section sample_str_of ibm_group =
      Inr (''### Certificates & Badges'' @ [CHR 0x0A, CHR 0x0A] @ ''**IBM**'' @ [CHR 0x0A, CHR 0x0A]
           @ ''<a href="https://www.credly.com/badges/7/public_url">''
           @ ''<img height="90" width="90" src="https://images.example/7" alt="Badge 7"/></a>''
           @ [CHR 0x0A])
    \<and> spec_render_section sample_str_of ibm_group =
      Inr (''### Certificates & Badges'' @ [CHR 0x0A] @ ''**IBM**'' @ [CHR 0x0A, CHR 0x0A]
           @ ''<a href="https://www.credly.com/badges/7/public_url">''
           @ ''<img height="90" width="90" src="https://images.example/7" alt="Badge 7"/></a>''
           @ [CHR 0x0A])
    \<and> render_section sample_str_of ibm_group \<noteq> spec_render_section sample_str_of ibm_group\<close>
  by (simp add: render_section_def spec_render_section_def group_block_def ibm_group_def
      sample_badge_def badge_html_def format_value_def)











subsection \<open>Running the pipeline twice\<close>


















end
